theory Spec2Isabelle
  imports Complex_Main "HOL-Library.FSet" "HOL-Library.Sublist"
begin

section \<open>Exceptions\<close>

text \<open>
  The Python exceptions the scripts can raise. A function that may raise returns
  \<open>error + 'a\<close>, with \<open>Inl\<close> for the exception.
\<close>

datatype error =
    HTTPError nat
  | ConnectionError
  | AssertionError
  | TypeError
  | KeyError string
  | IndexError
  | ValueError
  | AttributeError

section \<open>finetune-quora-embeddings/benchmark.py: unique sentences\<close>

text \<open>
  A row of the question-pairs dataset. \<open>row["questions"]["text"]\<close> is unpacked into
  exactly two sentences by both loops (\<open>s1, s2 = row["questions"]["text"]\<close>), so the
  pair is a pair here.
\<close>

record row =
  questions_text :: "string \<times> string"
  is_duplicate :: bool

text \<open>
  The local variables of the generator \<open>get_unique_sentences\<close>, with the dictionary it
  mutates and the batches it has yielded so far. Ids are values of \<open>len(seen)\<close>, hence
  natural numbers.
\<close>

record gen_state =
  seen :: "string fset"
  sentence_to_id_mapping :: "string \<rightharpoonup> nat"
  batch :: "string list"
  yielded :: "string list list"

text \<open>
  One of the two \<open>if s not in seen:\<close> blocks of the loop body: register the sentence
  under the id \<open>len(seen)\<close>, append it to the batch, and yield the batch when it has
  reached \<open>batch_size\<close>.
\<close>

definition visit :: "int \<Rightarrow> string \<Rightarrow> gen_state \<Rightarrow> gen_state" where
  "visit batch_size s st =
     (if s |\<in>| seen st then st
      else
        let st1 = st\<lparr>sentence_to_id_mapping := (sentence_to_id_mapping st)(s \<mapsto> fcard (seen st))\<rparr>;
            st2 = st1\<lparr>seen := finsert s (seen st1)\<rparr>;
            st3 = st2\<lparr>batch := batch st2 @ [s]\<rparr>
        in if int (length (batch st3)) = batch_size
           then st3\<lparr>yielded := yielded st3 @ [batch st3], batch := []\<rparr>
           else st3)"

definition row_step :: "int \<Rightarrow> row \<Rightarrow> gen_state \<Rightarrow> gen_state" where
  "row_step batch_size r st =
     (case questions_text r of (s1, s2) \<Rightarrow> visit batch_size s2 (visit batch_size s1 st))"

text \<open>
  The generator run to exhaustion: the list of batches it yields, in order, and the
  dictionary as it leaves it.
\<close>

definition get_unique_sentences ::
  "row list \<Rightarrow> (string \<rightharpoonup> nat) \<Rightarrow> int \<Rightarrow> string list list \<times> (string \<rightharpoonup> nat)" where
  "get_unique_sentences test_dataset mapping batch_size =
     (let st = fold (row_step batch_size) test_dataset
                 \<lparr>seen = {||}, sentence_to_id_mapping = mapping, batch = [], yielded = []\<rparr>
      in (if batch st \<noteq> [] then yielded st @ [batch st] else yielded st,
          sentence_to_id_mapping st))"

text \<open>\<open>sentence_to_id_mapping[s]\<close>: a missing key raises KeyError.\<close>

definition lookup_id :: "(string \<rightharpoonup> nat) \<Rightarrow> string \<Rightarrow> error + nat" where
  "lookup_id mapping s = (case mapping s of None \<Rightarrow> Inl (KeyError s) | Some i \<Rightarrow> Inr i)"

text \<open>The loop of \<open>extract_unique_sentences\<close>, with its three accumulators.\<close>

fun extract_loop ::
  "row list \<Rightarrow> (string \<rightharpoonup> nat) \<Rightarrow> nat list \<times> nat list \<times> int list
     \<Rightarrow> error + (nat list \<times> nat list \<times> int list)" where
  "extract_loop [] mapping acc = Inr acc"
| "extract_loop (r # rs) mapping (elements_1, elements_2, labels) =
     (case questions_text r of (s1, s2) \<Rightarrow>
        (case lookup_id mapping s1 of
           Inl e \<Rightarrow> Inl e
         | Inr i1 \<Rightarrow>
             (case lookup_id mapping s2 of
                Inl e \<Rightarrow> Inl e
              | Inr i2 \<Rightarrow>
                  extract_loop rs mapping
                    (elements_1 @ [i1], elements_2 @ [i2],
                     labels @ [if is_duplicate r then 1 else 0]))))"

definition extract_unique_sentences ::
  "row list \<Rightarrow> (string \<rightharpoonup> nat) \<Rightarrow> error + (nat list \<times> nat list \<times> int list)" where
  "extract_unique_sentences test_dataset mapping = extract_loop test_dataset mapping ([], [], [])"

subsection \<open>What the generator is meant to produce\<close>

text \<open>All sentences of the dataset in reading order: row by row, first question first.\<close>

definition dataset_sentences :: "row list \<Rightarrow> string list" where
  "dataset_sentences test_dataset =
     concat (map (\<lambda>r. [fst (questions_text r), snd (questions_text r)]) test_dataset)"

text \<open>Each distinct element of a list once, in order of first appearance.\<close>

fun first_appearances :: "'a list \<Rightarrow> 'a list" where
  "first_appearances [] = []"
| "first_appearances (x # xs) = x # first_appearances (removeAll x xs)"

section \<open>embeddings-modal/dataset.py\<close>

text \<open>An embedding is a list of floats; the scripts never compute with its entries.\<close>

type_synonym embedding = "real list"

text \<open>
  The HTTP response of the endpoint as the script reads it: the status code, and the
  \<open>"data"\<close> array of the JSON body, each item of which has an \<open>"embedding"\<close>.
\<close>

record data_item =
  item_embedding :: embedding

record response =
  status_code :: nat
  json_data :: "data_item list"

text \<open>
  \<open>response.raise_for_status()\<close> of the HTTP library: client errors (4xx) and server
  errors (5xx) raise HTTPError, every other status passes.
\<close>

definition raise_for_status :: "response \<Rightarrow> error + unit" where
  "raise_for_status r =
     (if 400 \<le> status_code r \<and> status_code r < 600 then Inl (HTTPError (status_code r))
      else Inr ())"

text \<open>
  The remote endpoint: given the bodies of the requests posted before (oldest first) and
  the texts of this request, \<open>requests.post\<close> either raises or returns a response. The
  state threaded through the script is the list of request bodies posted so far.
\<close>

type_synonym endpoint = "string list list \<Rightarrow> string list \<Rightarrow> error + response"

definition get_embeddings_batch ::
  "endpoint \<Rightarrow> string list \<Rightarrow> string list list \<Rightarrow> (error + embedding list) \<times> string list list" where
  "get_embeddings_batch post texts sent =
     ((case post sent texts of
         Inl e \<Rightarrow> Inl e
       | Inr response \<Rightarrow>
           (case raise_for_status response of
              Inl e \<Rightarrow> Inl e
            | Inr _ \<Rightarrow> Inr (map item_embedding (json_data response)))),
      sent @ [texts])"

text \<open>A dataset item; only its \<open>'text'\<close> field is read.\<close>

record dataset_item =
  item_text :: string

text \<open>What a Python variable of \<open>main\<close> can hold: \<open>None\<close>, a float, or a list.\<close>

datatype pyvalue = PyNone | PyFloat real | PyList "pyvalue list"

definition py_embedding :: "embedding \<Rightarrow> pyvalue" where
  "py_embedding v = PyList (map PyFloat v)"

definition py_embeddings :: "embedding list \<Rightarrow> pyvalue" where
  "py_embeddings es = PyList (map py_embedding es)"

text \<open>
  The loop of \<open>process_dataset_batch\<close> over the remaining items, with the local variables
  \<open>embeddings\<close> and \<open>batch_texts\<close>. An exception of \<open>get_embeddings_batch\<close> leaves the
  loop.
\<close>

fun process_batch_loop ::
  "endpoint \<Rightarrow> int \<Rightarrow> dataset_item list \<Rightarrow> embedding list \<times> string list \<Rightarrow> string list list
     \<Rightarrow> (error + embedding list \<times> string list) \<times> string list list" where
  "process_batch_loop post batch_size [] acc sent = (Inr acc, sent)"
| "process_batch_loop post batch_size (item # rest) (embeddings, batch_texts) sent =
     (let batch_texts1 = batch_texts @ [item_text item]
      in if int (length batch_texts1) = batch_size
         then (case get_embeddings_batch post batch_texts1 sent of
                 (Inl e, sent1) \<Rightarrow> (Inl e, sent1)
               | (Inr batch_embeddings, sent1) \<Rightarrow>
                   process_batch_loop post batch_size rest (embeddings @ batch_embeddings, []) sent1)
         else process_batch_loop post batch_size rest (embeddings, batch_texts1) sent)"

text \<open>
  \<open>process_dataset_batch\<close> has no \<open>return\<close> statement: when the loop ends, the function
  returns \<open>None\<close>.
\<close>

definition process_dataset_batch ::
  "endpoint \<Rightarrow> dataset_item list \<Rightarrow> int \<Rightarrow> string list list \<Rightarrow> (error + pyvalue) \<times> string list list" where
  "process_dataset_batch post dataset batch_size sent =
     (case process_batch_loop post batch_size dataset ([], []) sent of
        (Inl e, sent1) \<Rightarrow> (Inl e, sent1)
      | (Inr (embeddings, batch_texts), sent1) \<Rightarrow> (Inr PyNone, sent1))"

text \<open>
  \<open>get_embeddings_linear\<close> has the body of \<open>get_embeddings_batch\<close>; its \<open>@benchmark\<close>
  wrapper prints the elapsed time and passes the result (or the exception) through.
\<close>

definition get_embeddings_linear ::
  "endpoint \<Rightarrow> string list \<Rightarrow> string list list \<Rightarrow> (error + embedding list) \<times> string list list" where
  "get_embeddings_linear post texts sent =
     ((case post sent texts of
         Inl e \<Rightarrow> Inl e
       | Inr response \<Rightarrow>
           (case raise_for_status response of
              Inl e \<Rightarrow> Inl e
            | Inr _ \<Rightarrow> Inr (map item_embedding (json_data response)))),
      sent @ [texts])"

text \<open>
  The loop of \<open>process_dataset_linear\<close> over \<open>enumerate(dataset)\<close>; \<open>break\<close> ends it at
  the first index that is at least 100.
\<close>

fun process_linear_loop ::
  "endpoint \<Rightarrow> (nat \<times> dataset_item) list \<Rightarrow> embedding list list \<Rightarrow> string list list
     \<Rightarrow> (error + embedding list list) \<times> string list list" where
  "process_linear_loop post [] embeddings sent = (Inr embeddings, sent)"
| "process_linear_loop post ((i, item) # rest) embeddings sent =
     (if i \<ge> 100 then (Inr embeddings, sent)
      else (case get_embeddings_linear post [item_text item] sent of
              (Inl e, sent1) \<Rightarrow> (Inl e, sent1)
            | (Inr embedding, sent1) \<Rightarrow>
                process_linear_loop post rest (embeddings @ [embedding]) sent1))"

definition process_dataset_linear ::
  "endpoint \<Rightarrow> dataset_item list \<Rightarrow> string list list \<Rightarrow> (error + embedding list list) \<times> string list list" where
  "process_dataset_linear post dataset sent = process_linear_loop post (enumerate 0 dataset) [] sent"

definition EXCEL_FILE :: string where
  "EXCEL_FILE = ''embeddings.xlsx''"

definition BATCH_SIZE :: int where
  "BATCH_SIZE = 20"

text \<open>
  \<open>save_to_excel\<close> builds a frame with \<open>pd.dataframe(data)\<close> and writes it to
  \<open>EXCEL_FILE\<close>. The data-frame library is not part of the repository: what the
  expression \<open>pd.dataframe(data)\<close> evaluates to (an exception, or the table built from
  the data) is the parameter \<open>pd_dataframe\<close>. The file system maps a file name to the
  table written to it.
\<close>

definition save_to_excel ::
  "(pyvalue \<Rightarrow> error + 'frame) \<Rightarrow> pyvalue \<Rightarrow> (string \<rightharpoonup> 'frame) \<Rightarrow> (error + unit) \<times> (string \<rightharpoonup> 'frame)" where
  "save_to_excel pd_dataframe data files =
     (case pd_dataframe data of
        Inl e \<Rightarrow> (Inl e, files)
      | Inr df \<Rightarrow> (Inr (), files(EXCEL_FILE \<mapsto> df)))"

text \<open>
  \<open>main\<close>, with the module constant \<open>FEATURE_FLAG\<close> and the loaded dataset as arguments.
  It returns the outcome, the requests posted and the files written.
\<close>

definition main ::
  "string \<Rightarrow> (pyvalue \<Rightarrow> error + 'frame) \<Rightarrow> endpoint \<Rightarrow> dataset_item list
     \<Rightarrow> (error + unit) \<times> string list list \<times> (string \<rightharpoonup> 'frame)" where
  "main FEATURE_FLAG pd_dataframe post dataset =
     (if FEATURE_FLAG = ''BATCH'' then
        (case process_dataset_batch post dataset BATCH_SIZE [] of
           (Inl e, sent) \<Rightarrow> (Inl e, sent, Map.empty)
         | (Inr embeddings, sent) \<Rightarrow>
             (case save_to_excel pd_dataframe embeddings Map.empty of
                (r, files) \<Rightarrow> (r, sent, files)))
      else if FEATURE_FLAG = ''LINEAR'' then
        (case process_dataset_linear post dataset [] of
           (Inl e, sent) \<Rightarrow> (Inl e, sent, Map.empty)
         | (Inr embeddings, sent) \<Rightarrow>
             (case save_to_excel pd_dataframe (PyList (map py_embeddings embeddings)) Map.empty of
                (r, files) \<Rightarrow> (r, sent, files)))
      else (Inl ValueError, [], Map.empty))"

section \<open>finetune-quora-embeddings/benchmark.py: metrics and benchmarks\<close>

subsection \<open>Dictionaries in insertion order\<close>

text \<open>
  A Python dictionary whose order of keys matters is a list of key-value pairs without
  repeated keys. \<open>d[k] = v\<close> replaces the value of a key that is present and appends a
  new key at the end; \<open>d[k]\<close> raises KeyError on a missing key.
\<close>

fun setitem :: "'k \<Rightarrow> 'v \<Rightarrow> ('k \<times> 'v) list \<Rightarrow> ('k \<times> 'v) list" where
  "setitem k v [] = [(k, v)]"
| "setitem k v ((k', v') # d) = (if k' = k then (k, v) # d else (k', v') # setitem k v d)"


subsection \<open>The evaluation table\<close>

text \<open>
  A metric takes the labels and the predictions and returns a score. The four metric
  functions are imported from the metrics library; \<open>threshold_decorator\<close> comes from the
  module \<open>evals\<close>, which is not among the sources. Both are parameters of the model.
\<close>

type_synonym metric = "int list \<Rightarrow> real list \<Rightarrow> real"

record sklearn_metrics =
  accuracy_score :: metric
  precision_score :: metric
  recall_score :: metric
  roc_auc_score :: metric










subsection \<open>The embedding helpers of the two API benchmarks\<close>

text \<open>
  \<open>assert cond, msg\<close>: when the condition fails, the message is evaluated and
  AssertionError is raised with it; an exception raised while the message is evaluated
  takes its place.
\<close>

definition py_assert :: "bool \<Rightarrow> error + 'm \<Rightarrow> error + unit" where
  "py_assert cond msg =
     (if cond then Inr ()
      else (case msg of Inl e \<Rightarrow> Inl e | Inr m \<Rightarrow> Inl AssertionError))"

text \<open>
  The response object of the OpenAI client: its \<open>data\<close> attribute, and what \<open>len(response)\<close>
  gives when the class of the object defines a length (\<open>None\<close> when it does not, in which
  case \<open>len(response)\<close> raises TypeError).
\<close>

record openai_response =
  response_data :: "data_item list"
  response_len :: "nat option"

definition py_len_response :: "openai_response \<Rightarrow> error + nat" where
  "py_len_response response =
     (case response_len response of None \<Rightarrow> Inl TypeError | Some n \<Rightarrow> Inr n)"

text \<open>The loop \<open>for item in response.data\<close> of the OpenAI helper.\<close>

fun openai_collect :: "data_item list \<Rightarrow> embedding list \<Rightarrow> error + embedding list" where
  "openai_collect [] res = Inr res"
| "openai_collect (item # items) res =
     (case py_assert (length (item_embedding item) = 1536) (Inr ()) of
        Inl e \<Rightarrow> Inl e
      | Inr _ \<Rightarrow> openai_collect items (res @ [item_embedding item]))"

text \<open>
  \<open>embed_text\<close> of \<open>benchmark_openai\<close>. The semaphore and the progress bar do not change
  what the coroutine returns or raises. \<open>create\<close> is the outcome of
  \<open>client.embeddings.create\<close> for the given texts.
\<close>

definition openai_embed_text ::
  "(string list \<Rightarrow> error + openai_response) \<Rightarrow> string list \<Rightarrow> error + embedding list" where
  "openai_embed_text create texts =
     (case create texts of
        Inl e \<Rightarrow> Inl e
      | Inr response \<Rightarrow>
          (case py_assert (length (response_data response) = length texts) (py_len_response response) of
             Inl e \<Rightarrow> Inl e
           | Inr _ \<Rightarrow> openai_collect (response_data response) []))"

record cohere_response =
  response_embeddings :: "embedding list"

text \<open>The loop \<open>for item in response.embeddings\<close> of the Cohere helper.\<close>

fun cohere_check :: "embedding list \<Rightarrow> error + unit" where
  "cohere_check [] = Inr ()"
| "cohere_check (item # items) =
     (case py_assert (length item = 1024) (Inr ()) of
        Inl e \<Rightarrow> Inl e
      | Inr _ \<Rightarrow> cohere_check items)"

text \<open>\<open>embed_text\<close> of \<open>benchmark_cohere_roc\<close>; \<open>co_embed\<close> is the outcome of \<open>co.embed\<close>.\<close>

definition cohere_embed_text ::
  "(string list \<Rightarrow> error + cohere_response) \<Rightarrow> string list \<Rightarrow> error + embedding list" where
  "cohere_embed_text co_embed texts =
     (case co_embed texts of
        Inl e \<Rightarrow> Inl e
      | Inr response \<Rightarrow>
          (case py_assert (length (response_embeddings response) = length texts) (Inr ()) of
             Inl e \<Rightarrow> Inl e
           | Inr _ \<Rightarrow>
               (case cohere_check (response_embeddings response) of
                  Inl e \<Rightarrow> Inl e
                | Inr _ \<Rightarrow> Inr (response_embeddings response))))"

text \<open>
  \<open>await asyncio.gather(*coros)\<close>: the results of the coroutines in the order of the
  coroutines, or an exception when one of them raises. When several raise, the one that
  surfaces depends on timing; the model takes the first in the order of the coroutines.
\<close>

fun gather :: "(error + 'a) list \<Rightarrow> error + 'a list" where
  "gather [] = Inr []"
| "gather (Inl e # rs) = Inl e"
| "gather (Inr x # rs) = (case gather rs of Inl e \<Rightarrow> Inl e | Inr xs \<Rightarrow> Inr (x # xs))"

subsection \<open>The three benchmarks\<close>

text \<open>
  \<open>nn.Embedding.from_pretrained\<close> asserts that the tensor of embeddings has two
  dimensions. The tensor made of a non-empty list of embeddings of one length has; the
  tensor made of the empty list has one dimension. The providers return embeddings of
  one length (the helpers of the two APIs assert it, an encoder returns a matrix).
\<close>

definition from_pretrained :: "embedding list \<Rightarrow> error + embedding list" where
  "from_pretrained embeddings_table =
     (if embeddings_table = [] then Inl AssertionError else Inr embeddings_table)"

text \<open>
  The embedding layer applied to a tensor of ids: the rows of the table at these ids; an
  id outside the table raises IndexError.
\<close>

definition embedding_layer :: "embedding list \<Rightarrow> nat list \<Rightarrow> error + embedding list" where
  "embedding_layer weights ids =
     (if list_all (\<lambda>i. i < length weights) ids then Inr (map (\<lambda>i. weights ! i) ids)
      else Inl IndexError)"

text \<open>
  The dictionary comprehension \<open>{name: f(labels, predictions) for name, f in EVALS.items()}\<close>.
\<close>

definition score_all :: "(string \<times> metric) list \<Rightarrow> int list \<Rightarrow> real list \<Rightarrow> (string \<times> real) list" where
  "score_all evals labels predictions =
     fold (\<lambda>(name, f) d. setitem name (f labels predictions) d) evals []"

text \<open>
  The three benchmarks end with the same statements: make the embedding layer of the
  table of embeddings, extract the ids and labels of the rows, look the two sentences of
  every row up in the layer, take the cosine score of each pair (the diagonal of
  \<open>util.cos_sim\<close>), and apply every entry of \<open>EVALS\<close> to the labels and these
  predictions. \<open>cos_sim\<close> is the library's score of two embeddings; like the metric
  functions and the encoders it is a function here, so it returns on every input.
\<close>

definition score_pairs ::
  "(string \<times> metric) list \<Rightarrow> (embedding \<Rightarrow> embedding \<Rightarrow> real) \<Rightarrow> embedding list \<Rightarrow> row list
     \<Rightarrow> (string \<rightharpoonup> nat) \<Rightarrow> error + (string \<times> real) list" where
  "score_pairs evals cos_sim embeddings_table test_dataset sentence_to_embedding_map =
     (case from_pretrained embeddings_table of
        Inl e \<Rightarrow> Inl e
      | Inr weights \<Rightarrow>
          (case extract_unique_sentences test_dataset sentence_to_embedding_map of
             Inl e \<Rightarrow> Inl e
           | Inr (sentence_pairs_elem_1, sentence_pairs_elem_2, labels) \<Rightarrow>
               (case embedding_layer weights sentence_pairs_elem_1 of
                  Inl e \<Rightarrow> Inl e
                | Inr sentence_pairs_embedding_1 \<Rightarrow>
                    (case embedding_layer weights sentence_pairs_elem_2 of
                       Inl e \<Rightarrow> Inl e
                     | Inr sentence_pairs_embedding_2 \<Rightarrow>
                         Inr (score_all evals labels
                                (map2 cos_sim sentence_pairs_embedding_1
                                   sentence_pairs_embedding_2))))))"


text \<open>
  \<open>benchmark_openai\<close> and \<open>benchmark_cohere_roc\<close>: the list comprehension that builds the
  coroutines exhausts the generator; the gathered lists are flattened in order.
\<close>

definition benchmark_openai ::
  "(string \<times> metric) list \<Rightarrow> (embedding \<Rightarrow> embedding \<Rightarrow> real)
     \<Rightarrow> (string list \<Rightarrow> error + openai_response) \<Rightarrow> row list \<Rightarrow> error + (string \<times> real) list" where
  "benchmark_openai evals cos_sim create test_dataset =
     (case get_unique_sentences test_dataset Map.empty 128 of
        (sentences, sentence_to_embedding_map) \<Rightarrow>
          (case gather (map (openai_embed_text create) sentences) of
             Inl e \<Rightarrow> Inl e
           | Inr res \<Rightarrow>
               score_pairs evals cos_sim (concat res) test_dataset sentence_to_embedding_map))"

definition benchmark_cohere_roc ::
  "(string \<times> metric) list \<Rightarrow> (embedding \<Rightarrow> embedding \<Rightarrow> real)
     \<Rightarrow> (string list \<Rightarrow> error + cohere_response) \<Rightarrow> row list \<Rightarrow> error + (string \<times> real) list" where
  "benchmark_cohere_roc evals cos_sim co_embed test_dataset =
     (case get_unique_sentences test_dataset Map.empty 96 of
        (sentences, sentence_to_embedding_map) \<Rightarrow>
          (case gather (map (cohere_embed_text co_embed) sentences) of
             Inl e \<Rightarrow> Inl e
           | Inr res \<Rightarrow>
               score_pairs evals cos_sim (concat res) test_dataset sentence_to_embedding_map))"

subsection \<open>The entry point\<close>

text \<open>
  What the benchmarks of one run depend on: the metric functions, the decorator, the
  cosine score, the encoder of each model of \<open>MODELS\<close>, the two APIs, and the test split
  loaded from disk.
\<close>

record benchmark_env =
  sklearn :: sklearn_metrics
  threshold_decorator :: "real \<Rightarrow> metric \<Rightarrow> metric"
  cos_sim :: "embedding \<Rightarrow> embedding \<Rightarrow> real"
  sentence_transformer :: "string \<Rightarrow> string list \<Rightarrow> embedding list"
  openai_create :: "string list \<Rightarrow> error + openai_response"
  cohere_embed :: "string list \<Rightarrow> error + cohere_response"
  test_split :: "row list"



section \<open>Notions the claims are stated with\<close>

text \<open>
  An endpoint that answers every request with a response whose status is no error.
\<close>

definition always_ok :: "endpoint \<Rightarrow> bool" where
  "always_ok post \<longleftrightarrow> (\<forall>sent texts. \<exists>r. post sent texts = Inr r \<and> raise_for_status r = Inr ())"









section \<open>Auxiliary notions for the proofs\<close>

text \<open>
  Everything the generator has handed out or is about to: the yielded batches followed by
  the batch under construction.
\<close>

definition emitted :: "gen_state \<Rightarrow> string list" where
  "emitted st = concat (yielded st) @ batch st"

text \<open>
  The loop invariant of \<open>get_unique_sentences\<close>: \<open>seen\<close> holds exactly the emitted
  sentences, none is emitted twice, and the dictionary maps each to its position.
\<close>

definition gen_inv :: "gen_state \<Rightarrow> bool" where
  "gen_inv st \<longleftrightarrow>
     fset (seen st) = set (emitted st) \<and> distinct (emitted st) \<and>
     (\<forall>i<length (emitted st). sentence_to_id_mapping st (emitted st ! i) = Some i)"

text \<open>Appending a sentence unless it is there already: the effect of \<open>visit\<close> on \<open>emitted\<close>.\<close>

definition add_new :: "string \<Rightarrow> string list \<Rightarrow> string list" where
  "add_new s acc = (if s \<in> set acc then acc else acc @ [s])"

text \<open>Sample inputs, on which the theorems below are instantiated.\<close>

definition quora_sample :: "row list" where
  "quora_sample =
     [\<lparr>questions_text = (''a'', ''b''), is_duplicate = True\<rparr>,
      \<lparr>questions_text = (''b'', ''c''), is_duplicate = False\<rparr>,
      \<lparr>questions_text = (''a'', ''a''), is_duplicate = True\<rparr>]"

definition sample_endpoint :: endpoint where
  "sample_endpoint sent texts =
     Inr \<lparr>status_code = 200, json_data = map (\<lambda>t. \<lparr>item_embedding = [1, 0]\<rparr>) texts\<rparr>"

definition sample_items :: "dataset_item list" where
  "sample_items = map (\<lambda>t. \<lparr>item_text = t\<rparr>) [''a'', ''b'', ''c'', ''d'', ''e'']"

definition twenty_items :: "dataset_item list" where
  "twenty_items = replicate 20 \<lparr>item_text = ''x''\<rparr>"


section \<open>The unique sentences of the test set and their ids\<close>

lemma emitted_visit:
  "fset (seen st) = set (emitted st) \<Longrightarrow>
   emitted (visit b s st) = (if s \<in> set (emitted st) then emitted st else emitted st @ [s])"
  by (auto simp: visit_def emitted_def Let_def)

lemma fcard_seen: "fset (seen st) = set (emitted st) \<Longrightarrow> distinct (emitted st) \<Longrightarrow> fcard (seen st) = length (emitted st)"
  by (simp add: fcard.rep_eq distinct_card)

lemma seen_visit: "seen (visit b s st) = (if s |\<in>| seen st then seen st else finsert s (seen st))"
  by (simp add: visit_def Let_def)

lemma mapping_visit: "sentence_to_id_mapping (visit b s st) = (if s |\<in>| seen st then sentence_to_id_mapping st else (sentence_to_id_mapping st)(s \<mapsto> fcard (seen st)))"
  by (simp add: visit_def Let_def)

lemma gen_inv_visit: assumes "gen_inv st" shows "gen_inv (visit b s st)"
proof (cases "s |\<in>| seen st")
  case True
  then show ?thesis using assms by (simp add: visit_def)
next
  case False
  from assms have sn: "fset (seen st) = set (emitted st)" and d: "distinct (emitted st)"
    and m: "\<forall>i<length (emitted st). sentence_to_id_mapping st (emitted st ! i) = Some i"
    by (simp_all add: gen_inv_def)
  from False sn have notin: "s \<notin> set (emitted st)" by auto
  have e: "emitted (visit b s st) = emitted st @ [s]" using emitted_visit[OF sn] notin by simp
  have c: "fcard (seen st) = length (emitted st)" by (rule fcard_seen[OF sn d])
  show ?thesis
    unfolding gen_inv_def e seen_visit mapping_visit
    using False sn d m notin c by (auto simp: nth_append less_Suc_eq)
qed

lemma first_appearances_fold:
  "distinct acc \<Longrightarrow> fold (\<lambda>s acc. if s \<in> set acc then acc else acc @ [s]) xs acc = acc @ first_appearances (filter (\<lambda>x. x \<notin> set acc) xs)"
proof (induction xs arbitrary: acc)
  case Nil
  then show ?case by simp
next
  case (Cons x xs)
  show ?case
  proof (cases "x \<in> set acc")
    case True
    then show ?thesis using Cons by simp
  next
    case False
    have f: "filter (\<lambda>y. y \<notin> set (acc @ [x])) xs = removeAll x (filter (\<lambda>y. y \<notin> set acc) xs)"
      by (induction xs) auto
    from False Cons.prems have "distinct (acc @ [x])" by simp
    from Cons.IH[OF this] have "fold (\<lambda>s acc. if s \<in> set acc then acc else acc @ [s]) xs (acc @ [x]) =
        acc @ x # first_appearances (removeAll x (filter (\<lambda>y. y \<notin> set acc) xs))"
      unfolding f by simp
    with False show ?thesis by simp
  qed
qed

lemma set_first_appearances: "set (first_appearances xs) = set xs"
  by (induction xs rule: first_appearances.induct) auto

lemma distinct_first_appearances: "distinct (first_appearances xs)"
  by (induction xs rule: first_appearances.induct) (auto simp: set_first_appearances)

lemma row_step_inv:
  assumes "gen_inv st"
  shows "gen_inv (row_step b r st) \<and>
         emitted (row_step b r st) = fold add_new [fst (questions_text r), snd (questions_text r)] (emitted st)"
proof -
  obtain s1 s2 where q: "questions_text r = (s1, s2)" by (cases "questions_text r")
  have i1: "gen_inv (visit b s1 st)" by (rule gen_inv_visit[OF assms])
  have i2: "gen_inv (visit b s2 (visit b s1 st))" by (rule gen_inv_visit[OF i1])
  have e1: "emitted (visit b s1 st) = add_new s1 (emitted st)"
    using assms by (simp add: emitted_visit gen_inv_def add_new_def)
  have e2: "emitted (visit b s2 (visit b s1 st)) = add_new s2 (emitted (visit b s1 st))"
    using i1 by (simp add: emitted_visit gen_inv_def add_new_def)
  show ?thesis using i2 e1 e2 by (simp add: row_step_def q)
qed

lemma fold_row_step_inv:
  "gen_inv st \<Longrightarrow>
     gen_inv (fold (row_step b) ds st) \<and>
     emitted (fold (row_step b) ds st) = fold add_new (dataset_sentences ds) (emitted st)"
proof (induction ds arbitrary: st)
  case Nil
  then show ?case by (simp add: dataset_sentences_def)
next
  case (Cons r ds)
  from row_step_inv[OF Cons.prems, of b r] Cons.IH[of "row_step b r st"]
  show ?case by (simp add: dataset_sentences_def)
qed

lemma extract_loop_total:
  "\<forall>r\<in>set rs. fst (questions_text r) \<in> dom m \<and> snd (questions_text r) \<in> dom m \<Longrightarrow>
   extract_loop rs m (a1, a2, a3) =
     Inr (a1 @ map (\<lambda>r. the (m (fst (questions_text r)))) rs,
          a2 @ map (\<lambda>r. the (m (snd (questions_text r)))) rs,
          a3 @ map (\<lambda>r. if is_duplicate r then 1 else 0) rs)"
proof (induction rs arbitrary: a1 a2 a3)
  case Nil
  then show ?case by simp
next
  case (Cons r rs)
  obtain s1 s2 where q: "questions_text r = (s1, s2)" by (cases "questions_text r")
  from Cons.prems q obtain i1 i2 where i: "m s1 = Some i1" "m s2 = Some i2" by auto
  from Cons.prems have "\<forall>r\<in>set rs. fst (questions_text r) \<in> dom m \<and> snd (questions_text r) \<in> dom m" by simp
  from Cons.IH[OF this] show ?case by (simp add: q i lookup_id_def)
qed

lemma get_unique_sentences_result:
  assumes "get_unique_sentences test_dataset mapping batch_size = (batches, mapping')"
  shows "concat batches = first_appearances (dataset_sentences test_dataset)"
    and "\<forall>i<length (concat batches). mapping' (concat batches ! i) = Some i"
proof -
  define st0 where "st0 = \<lparr>seen = {||}, sentence_to_id_mapping = mapping, batch = [], yielded = []\<rparr>"
  define st where "st = fold (row_step batch_size) test_dataset st0"
  have inv0: "gen_inv st0" and em0: "emitted st0 = []"
    by (simp_all add: st0_def gen_inv_def emitted_def)
  from fold_row_step_inv[OF inv0, of batch_size test_dataset]
  have inv: "gen_inv st" and em: "emitted st = fold add_new (dataset_sentences test_dataset) []"
    by (simp_all add: st_def em0)
  from assms have b: "batches = (if batch st \<noteq> [] then yielded st @ [batch st] else yielded st)"
    and m: "mapping' = sentence_to_id_mapping st"
    by (auto simp add: get_unique_sentences_def st_def st0_def Let_def split: if_splits)
  have ss: "concat batches = emitted st" by (simp add: b emitted_def)
  show "concat batches = first_appearances (dataset_sentences test_dataset)"
    using first_appearances_fold[of "[]" "dataset_sentences test_dataset"]
    by (simp add: ss em add_new_def[abs_def])
  show "\<forall>i<length (concat batches). mapping' (concat batches ! i) = Some i"
    using inv by (simp add: gen_inv_def ss m)
qed

text \<open>
  With a dictionary that maps every unique sentence to its position, the ids extracted
  for the rows are positions of the rows' sentences.
\<close>

lemma extract_unique_sentences_positions:
  assumes s: "set ss = set (dataset_sentences test_dataset)"
    and ids: "\<forall>i<length ss. mapping' (ss ! i) = Some i"
  shows "\<exists>e1 e2 labels.
            extract_unique_sentences test_dataset mapping' = Inr (e1, e2, labels) \<and>
            length e1 = length test_dataset \<and> length e2 = length test_dataset \<and>
            labels = map (\<lambda>r. if is_duplicate r then 1 else 0) test_dataset \<and>
            (\<forall>k<length test_dataset.
               e1 ! k < length ss \<and> ss ! (e1 ! k) = fst (questions_text (test_dataset ! k)) \<and>
               e2 ! k < length ss \<and> ss ! (e2 ! k) = snd (questions_text (test_dataset ! k)))"
proof -
  have dom: "set ss \<subseteq> dom mapping'"
    using ids by (auto simp: in_set_conv_nth)
  have rows: "\<forall>r\<in>set test_dataset. fst (questions_text r) \<in> dom mapping' \<and> snd (questions_text r) \<in> dom mapping'"
    using dom unfolding s by (auto simp: dataset_sentences_def)
  define e1 where "e1 = map (\<lambda>r. the (mapping' (fst (questions_text r)))) test_dataset"
  define e2 where "e2 = map (\<lambda>r. the (mapping' (snd (questions_text r)))) test_dataset"
  define labels where "labels = map (\<lambda>r. if is_duplicate r then 1 else (0::int)) test_dataset"
  have ex: "extract_unique_sentences test_dataset mapping' = Inr (e1, e2, labels)"
    using extract_loop_total[OF rows, of "[]" "[]" "[]"]
    by (simp add: extract_unique_sentences_def e1_def e2_def labels_def)
  have pos: "x \<in> set ss \<Longrightarrow> the (mapping' x) < length ss \<and> ss ! the (mapping' x) = x" for x
    using ids by (auto simp: in_set_conv_nth)
  have nth: "\<forall>k<length test_dataset.
               e1 ! k < length ss \<and> ss ! (e1 ! k) = fst (questions_text (test_dataset ! k)) \<and>
               e2 ! k < length ss \<and> ss ! (e2 ! k) = snd (questions_text (test_dataset ! k))"
  proof (intro allI impI)
    fix k assume k: "k < length test_dataset"
    then have "test_dataset ! k \<in> set test_dataset" by simp
    then have "fst (questions_text (test_dataset ! k)) \<in> set ss" "snd (questions_text (test_dataset ! k)) \<in> set ss"
      unfolding s by (auto simp: dataset_sentences_def)
    from pos[OF this(1)] pos[OF this(2)] k
    show "e1 ! k < length ss \<and> ss ! (e1 ! k) = fst (questions_text (test_dataset ! k)) \<and>
               e2 ! k < length ss \<and> ss ! (e2 ! k) = snd (questions_text (test_dataset ! k))"
      by (simp add: e1_def e2_def)
  qed
  have len: "length e1 = length test_dataset" "length e2 = length test_dataset"
    by (simp_all add: e1_def e2_def)
  show ?thesis using ex len nth labels_def by blast
qed

text \<open>
  Claim C8. For every positive \<open>batch_size\<close>, once \<open>get_unique_sentences\<close> is exhausted:
  the concatenation of the yielded batches lists every distinct sentence of the dataset's
  question pairs exactly once, in order of first appearance; the dictionary maps each of
  them to its index in that concatenation; and \<open>extract_unique_sentences\<close> then returns,
  row by row, the ids of the row's two sentences and its 0/1 duplicate label.
\<close>

theorem get_unique_sentences_ids:
  assumes "0 < batch_size"
    and "get_unique_sentences test_dataset mapping batch_size = (batches, mapping')"
  shows "concat batches = first_appearances (dataset_sentences test_dataset) \<and>
         distinct (concat batches) \<and>
         set (concat batches) = set (dataset_sentences test_dataset) \<and>
         (\<forall>i<length (concat batches). mapping' (concat batches ! i) = Some i) \<and>
         (\<exists>e1 e2 labels.
            extract_unique_sentences test_dataset mapping' = Inr (e1, e2, labels) \<and>
            length e1 = length test_dataset \<and> length e2 = length test_dataset \<and>
            length labels = length test_dataset \<and>
            (\<forall>k<length test_dataset.
               e1 ! k < length (concat batches) \<and>
               concat batches ! (e1 ! k) = fst (questions_text (test_dataset ! k)) \<and>
               e2 ! k < length (concat batches) \<and>
               concat batches ! (e2 ! k) = snd (questions_text (test_dataset ! k)) \<and>
               labels ! k = (if is_duplicate (test_dataset ! k) then 1 else 0)))"
proof -
  define ss where "ss = concat batches"
  note res = get_unique_sentences_result[OF assms(2), folded ss_def]
  have d: "distinct ss" by (simp add: res(1) distinct_first_appearances)
  have s: "set ss = set (dataset_sentences test_dataset)" by (simp add: res(1) set_first_appearances)
  from extract_unique_sentences_positions[OF s res(2)]
  obtain e1 e2 labels where ex: "extract_unique_sentences test_dataset mapping' = Inr (e1, e2, labels)"
    and len: "length e1 = length test_dataset" "length e2 = length test_dataset"
    and lab: "labels = map (\<lambda>r. if is_duplicate r then 1 else 0) test_dataset"
    and nth: "\<forall>k<length test_dataset.
               e1 ! k < length ss \<and> ss ! (e1 ! k) = fst (questions_text (test_dataset ! k)) \<and>
               e2 ! k < length ss \<and> ss ! (e2 ! k) = snd (questions_text (test_dataset ! k))"
    by blast
  from lab have len3: "length labels = length test_dataset"
    and lab': "\<forall>k<length test_dataset. labels ! k = (if is_duplicate (test_dataset ! k) then 1 else 0)"
    by simp_all
  have all: "\<forall>k<length test_dataset.
               e1 ! k < length ss \<and> ss ! (e1 ! k) = fst (questions_text (test_dataset ! k)) \<and>
               e2 ! k < length ss \<and> ss ! (e2 ! k) = snd (questions_text (test_dataset ! k)) \<and>
               labels ! k = (if is_duplicate (test_dataset ! k) then 1 else 0)"
    using nth lab' by blast
  show ?thesis using res d s ex len len3 all unfolding ss_def by blast
qed

theorem get_unique_sentences_ids_witness:
  "0 < (2::int) \<and>
   get_unique_sentences quora_sample Map.empty 2 =
     ([[''a'', ''b''], [''c'']], [''a'' \<mapsto> 0, ''b'' \<mapsto> 1, ''c'' \<mapsto> 2]) \<and>
   first_appearances (dataset_sentences quora_sample) = [''a'', ''b'', ''c''] \<and>
   extract_unique_sentences quora_sample [''a'' \<mapsto> 0, ''b'' \<mapsto> 1, ''c'' \<mapsto> 2] =
     Inr ([0, 1, 0], [1, 2, 0], [1, 0, 1])"
proof -
  have h1: "0 < (2::int)" by simp
  have h2: "get_unique_sentences quora_sample Map.empty 2 =
     ([[''a'', ''b''], [''c'']], [''a'' \<mapsto> 0, ''b'' \<mapsto> 1, ''c'' \<mapsto> 2])"
    by (simp add: get_unique_sentences_def quora_sample_def row_step_def visit_def Let_def
        fcard_finsert_if fcard_fempty numeral_2_eq_2)
  have h3: "extract_unique_sentences quora_sample [''a'' \<mapsto> 0, ''b'' \<mapsto> 1, ''c'' \<mapsto> 2] =
     Inr ([0, 1, 0], [1, 2, 0], [1, 0, 1])"
    by (simp add: extract_unique_sentences_def quora_sample_def lookup_id_def)
  from get_unique_sentences_ids[OF h1 h2]
  have "concat [[''a'', ''b''], [''c'']] = first_appearances (dataset_sentences quora_sample)"
    by blast
  then show ?thesis using h1 h2 h3 by simp
qed

section \<open>The batched and the linear pipeline\<close>

lemma get_embeddings_batch_sent: "snd (get_embeddings_batch post texts sent) = sent @ [texts]"
  by (simp add: get_embeddings_batch_def)

lemma get_embeddings_batch_ok:
  "always_ok post \<Longrightarrow> \<exists>es. fst (get_embeddings_batch post texts sent) = Inr es"
  unfolding always_ok_def get_embeddings_batch_def
  by (metis (mono_tags, lifting) fst_conv old.sum.simps(6))

lemma process_batch_loop_requests:
  assumes "0 < b" and "int (length bt) < b"
  shows "\<exists>reqs. snd (process_batch_loop post b rest (embs, bt) sent) = sent @ reqs \<and>
           (\<forall>req\<in>set reqs. int (length req) = b) \<and>
           prefix (concat reqs) (bt @ map item_text rest) \<and>
           (\<forall>acc. fst (process_batch_loop post b rest (embs, bt) sent) = Inr acc \<longrightarrow>
              length reqs = (length bt + length rest) div nat b) \<and>
           (always_ok post \<longrightarrow> (\<exists>acc. fst (process_batch_loop post b rest (embs, bt) sent) = Inr acc))"
  using assms
proof (induction rest arbitrary: embs bt sent)
  case Nil
  then show ?case by simp
next
  case (Cons item rest)
  let ?bt1 = "bt @ [item_text item]"
  show ?case
  proof (cases "int (length ?bt1) = b")
    case full: True
    obtain r sent1 where g: "get_embeddings_batch post ?bt1 sent = (r, sent1)" by force
    then have s1: "sent1 = sent @ [?bt1]" using get_embeddings_batch_sent[of post ?bt1 sent] by simp
    show ?thesis
    proof (cases r)
      case (Inl e)
      have "always_ok post \<Longrightarrow> False"
        using get_embeddings_batch_ok[of post ?bt1 sent] g Inl by simp
      then show ?thesis using full g Inl s1 by (auto simp: Let_def)
    next
      case (Inr es)
      from Cons.prems(1) have "int (length ([]::string list)) < b" by simp
      from Cons.IH[OF Cons.prems(1) this, of "embs @ es" sent1]
      obtain reqs where
        r1: "snd (process_batch_loop post b rest (embs @ es, []) sent1) = sent1 @ reqs"
        and r2: "\<forall>req\<in>set reqs. int (length req) = b"
        and r3: "prefix (concat reqs) (map item_text rest)"
        and r4: "\<forall>acc. fst (process_batch_loop post b rest (embs @ es, []) sent1) = Inr acc \<longrightarrow>
              length reqs = length rest div nat b"
        and r5: "always_ok post \<longrightarrow> (\<exists>acc. fst (process_batch_loop post b rest (embs @ es, []) sent1) = Inr acc)"
        by auto
      have eq: "process_batch_loop post b (item # rest) (embs, bt) sent =
                process_batch_loop post b rest (embs @ es, []) sent1"
        using full g Inr by (simp add: Let_def)
      have len: "length bt + length (item # rest) = nat b + length rest"
        using full by simp
      have nb: "0 < nat b" using Cons.prems(1) by simp
      have "(nat b + length rest) div nat b = Suc (length rest div nat b)"
        using nb by simp
      with r1 r2 r3 r4 r5 full show ?thesis
        unfolding eq s1 len
        by (intro exI[of _ "?bt1 # reqs"]) auto
    qed
  next
    case notfull: False
    with Cons.prems(2) have lt: "int (length ?bt1) < b" by simp
    have eq: "process_batch_loop post b (item # rest) (embs, bt) sent =
              process_batch_loop post b rest (embs, ?bt1) sent"
      using notfull by (simp add: Let_def)
    from Cons.IH[OF Cons.prems(1) lt, of embs sent]
    show ?thesis unfolding eq by simp
  qed
qed

lemma fst_process_dataset_batch:
  "fst (process_dataset_batch post dataset b sent) =
     (case fst (process_batch_loop post b dataset ([], []) sent) of Inl e \<Rightarrow> Inl e | Inr acc \<Rightarrow> Inr PyNone)"
  by (simp add: process_dataset_batch_def split: prod.splits sum.splits)

lemma snd_process_dataset_batch:
  "snd (process_dataset_batch post dataset b sent) = snd (process_batch_loop post b dataset ([], []) sent)"
  by (simp add: process_dataset_batch_def split: prod.splits sum.splits)

lemma prefix_take_full:
  assumes "prefix (concat reqs) xs" and "\<forall>req\<in>set reqs. length req = n" and "0 < n"
  shows "prefix (concat reqs) (take (n * (length xs div n)) xs)"
    and "length reqs = length xs div n \<Longrightarrow> concat reqs = take (n * (length xs div n)) xs"
proof -
  have len: "length (concat reqs) = n * length reqs"
    using assms(2) by (induction reqs) auto
  from assms(1) have le: "length (concat reqs) \<le> length xs" by (rule prefix_length_le)
  with len assms(3) have "length reqs \<le> length xs div n"
    by (simp add: less_eq_div_iff_mult_less_eq mult.commute)
  then have le2: "length (concat reqs) \<le> n * (length xs div n)" using len by simp
  from assms(1) obtain zs where xs: "xs = concat reqs @ zs" by (auto simp: prefix_def)
  show "prefix (concat reqs) (take (n * (length xs div n)) xs)"
    using le2 by (subst (2) xs) (simp add: prefix_def)
  show "concat reqs = take (n * (length xs div n)) xs" if "length reqs = length xs div n"
    using that len by (subst (2) xs) simp
qed

text \<open>
  Claim C9. For every dataset of length \<open>L\<close> and every \<open>batch_size\<close> \<open>b > 0\<close>, every
  request of \<open>process_dataset_batch\<close> carries exactly \<open>b\<close> texts, and the texts requested
  are, in order, an initial part of the first \<open>b * (L div b)\<close> texts of the dataset, so
  the trailing \<open>L mod b\<close> texts are never sent; when the function returns, it has sent all
  of these \<open>b * (L div b)\<close> texts and its value is \<open>None\<close>, not the embeddings it
  accumulated; and it does return when no request fails.
\<close>

theorem process_dataset_batch_full_batches_only:
  assumes "0 < batch_size"
  shows "(\<forall>req\<in>set (snd (process_dataset_batch post dataset batch_size [])). int (length req) = batch_size) \<and>
         prefix (concat (snd (process_dataset_batch post dataset batch_size [])))
                (take (nat batch_size * (length dataset div nat batch_size)) (map item_text dataset)) \<and>
         (\<forall>v. fst (process_dataset_batch post dataset batch_size []) = Inr v \<longrightarrow>
              v = PyNone \<and>
              concat (snd (process_dataset_batch post dataset batch_size [])) =
                take (nat batch_size * (length dataset div nat batch_size)) (map item_text dataset)) \<and>
         (always_ok post \<longrightarrow> fst (process_dataset_batch post dataset batch_size []) = Inr PyNone)"
proof -
  from assms have "int (length ([]::string list)) < batch_size" by simp
  from process_batch_loop_requests[OF assms this, of post dataset "[]" "[]"]
  obtain reqs where
    r1: "snd (process_batch_loop post batch_size dataset ([], []) []) = reqs"
    and r2: "\<forall>req\<in>set reqs. int (length req) = batch_size"
    and r3: "prefix (concat reqs) (map item_text dataset)"
    and r4: "\<forall>acc. fst (process_batch_loop post batch_size dataset ([], []) []) = Inr acc \<longrightarrow>
              length reqs = length dataset div nat batch_size"
    and r5: "always_ok post \<longrightarrow> (\<exists>acc. fst (process_batch_loop post batch_size dataset ([], []) []) = Inr acc)"
    by auto
  from r2 assms have r2': "\<forall>req\<in>set reqs. length req = nat batch_size" by auto
  from assms have nb: "0 < nat batch_size" by simp
  note pt = prefix_take_full[OF r3 r2' nb, simplified]
  have a: "\<forall>req\<in>set (snd (process_dataset_batch post dataset batch_size [])). int (length req) = batch_size"
    using r2 by (simp add: snd_process_dataset_batch r1)
  have b: "prefix (concat (snd (process_dataset_batch post dataset batch_size [])))
                (take (nat batch_size * (length dataset div nat batch_size)) (map item_text dataset))"
    using pt(1) by (simp add: snd_process_dataset_batch r1)
  have c: "\<forall>v. fst (process_dataset_batch post dataset batch_size []) = Inr v \<longrightarrow>
              v = PyNone \<and>
              concat (snd (process_dataset_batch post dataset batch_size [])) =
                take (nat batch_size * (length dataset div nat batch_size)) (map item_text dataset)"
    using pt(2) r4 by (auto simp: snd_process_dataset_batch fst_process_dataset_batch r1 split: sum.splits)
  have d: "always_ok post \<longrightarrow> fst (process_dataset_batch post dataset batch_size []) = Inr PyNone"
    using r5 by (auto simp: fst_process_dataset_batch)
  from a b c d show ?thesis by blast
qed

theorem process_dataset_batch_full_batches_only_witness:
  "0 < (2::int) \<and> always_ok sample_endpoint \<and>
   fst (process_dataset_batch sample_endpoint sample_items 2 []) = Inr PyNone \<and>
   concat (snd (process_dataset_batch sample_endpoint sample_items 2 [])) = [''a'', ''b'', ''c'', ''d'']"
proof -
  have h1: "0 < (2::int)" by simp
  have h2: "always_ok sample_endpoint"
    by (simp add: always_ok_def sample_endpoint_def raise_for_status_def)
  have t: "take (nat 2 * (length sample_items div nat 2)) (map item_text sample_items) = [''a'', ''b'', ''c'', ''d'']"
    by (simp add: sample_items_def)
  from process_dataset_batch_full_batches_only[OF h1, of sample_endpoint sample_items] h2
  show ?thesis unfolding t by simp
qed

lemma get_embeddings_linear_sent: "snd (get_embeddings_linear post texts sent) = sent @ [texts]"
  by (simp add: get_embeddings_linear_def)

lemma get_embeddings_linear_ok:
  "always_ok post \<Longrightarrow> \<exists>es. fst (get_embeddings_linear post texts sent) = Inr es"
  unfolding always_ok_def get_embeddings_linear_def
  by (metis (mono_tags, lifting) fst_conv old.sum.simps(6))

lemma get_embeddings_linear_Inr:
  "fst (get_embeddings_linear post texts sent) = Inr es \<Longrightarrow>
   \<exists>r. post sent texts = Inr r \<and> raise_for_status r = Inr () \<and> es = map item_embedding (json_data r)"
  by (auto simp: get_embeddings_linear_def split: sum.splits)

lemma process_linear_loop_requests:
  "\<exists>k \<le> min (length items) (100 - n).
     snd (process_linear_loop post (enumerate n items) embs sent) =
       sent @ map (\<lambda>item. [item_text item]) (take k items) \<and>
     (\<forall>res. fst (process_linear_loop post (enumerate n items) embs sent) = Inr res \<longrightarrow>
        k = min (length items) (100 - n) \<and>
        (\<exists>new. res = embs @ new \<and> length new = k \<and>
           (\<forall>i<k. \<exists>r. post (sent @ map (\<lambda>item. [item_text item]) (take i items)) [item_text (items ! i)] = Inr r \<and>
                     raise_for_status r = Inr () \<and> new ! i = map item_embedding (json_data r)))) \<and>
     (always_ok post \<longrightarrow> (\<exists>res. fst (process_linear_loop post (enumerate n items) embs sent) = Inr res))"
proof (induction items arbitrary: n embs sent)
  case Nil
  then show ?case by simp
next
  case (Cons item items)
  show ?case
  proof (cases "n \<ge> 100")
    case True
    then show ?thesis by simp
  next
    case False
    obtain r sent1 where g: "get_embeddings_linear post [item_text item] sent = (r, sent1)" by force
    then have s1: "sent1 = sent @ [[item_text item]]"
      using get_embeddings_linear_sent[of post "[item_text item]" sent] by simp
    show ?thesis
    proof (cases r)
      case (Inl e)
      have "always_ok post \<Longrightarrow> False"
        using get_embeddings_linear_ok[of post "[item_text item]" sent] g Inl by simp
      then show ?thesis using False g Inl s1 by (intro exI[of _ 1]) auto
    next
      case (Inr es)
      from g Inr get_embeddings_linear_Inr[of post "[item_text item]" sent es]
      obtain rr where rr: "post sent [item_text item] = Inr rr" "raise_for_status rr = Inr ()"
        "es = map item_embedding (json_data rr)" by auto
      have eq: "process_linear_loop post (enumerate n (item # items)) embs sent =
                process_linear_loop post (enumerate (Suc n) items) (embs @ [es]) sent1"
        using False g Inr by simp
      from Cons.IH[of "Suc n" "embs @ [es]" sent1]
      obtain k where k: "k \<le> min (length items) (100 - Suc n)"
        and r1: "snd (process_linear_loop post (enumerate (Suc n) items) (embs @ [es]) sent1) =
                   sent1 @ map (\<lambda>item. [item_text item]) (take k items)"
        and r2: "\<forall>res. fst (process_linear_loop post (enumerate (Suc n) items) (embs @ [es]) sent1) = Inr res \<longrightarrow>
        k = min (length items) (100 - Suc n) \<and>
        (\<exists>new. res = (embs @ [es]) @ new \<and> length new = k \<and>
           (\<forall>i<k. \<exists>r. post (sent1 @ map (\<lambda>item. [item_text item]) (take i items)) [item_text (items ! i)] = Inr r \<and>
                     raise_for_status r = Inr () \<and> new ! i = map item_embedding (json_data r)))"
        and r3: "always_ok post \<longrightarrow> (\<exists>res. fst (process_linear_loop post (enumerate (Suc n) items) (embs @ [es]) sent1) = Inr res)"
        by blast
      have a: "Suc k \<le> min (length (item # items)) (100 - n)" using k False by simp arith
      have b: "snd (process_linear_loop post (enumerate n (item # items)) embs sent) =
                 sent @ map (\<lambda>item. [item_text item]) (take (Suc k) (item # items))"
        using r1 unfolding eq s1 by simp
      have c: "Suc k = min (length (item # items)) (100 - n) \<and>
        (\<exists>new. res = embs @ new \<and> length new = Suc k \<and>
           (\<forall>i<Suc k. \<exists>r. post (sent @ map (\<lambda>item. [item_text item]) (take i (item # items))) [item_text ((item # items) ! i)] = Inr r \<and>
                     raise_for_status r = Inr () \<and> new ! i = map item_embedding (json_data r)))"
        if res: "fst (process_linear_loop post (enumerate n (item # items)) embs sent) = Inr res" for res
      proof -
        from res r2 obtain new where kk: "k = min (length items) (100 - Suc n)"
          and new: "res = (embs @ [es]) @ new" "length new = k"
          and each: "\<forall>i<k. \<exists>r. post (sent1 @ map (\<lambda>item. [item_text item]) (take i items)) [item_text (items ! i)] = Inr r \<and>
                     raise_for_status r = Inr () \<and> new ! i = map item_embedding (json_data r)"
          unfolding eq by blast
        have "\<exists>r. post (sent @ map (\<lambda>item. [item_text item]) (take i (item # items))) [item_text ((item # items) ! i)] = Inr r \<and>
                     raise_for_status r = Inr () \<and> (es # new) ! i = map item_embedding (json_data r)"
          if "i < Suc k" for i
        proof (cases i)
          case 0
          then show ?thesis using rr by simp
        next
          case (Suc j)
          with that each show ?thesis by (simp add: s1)
        qed
        then show ?thesis using kk new False by (intro conjI exI[of _ "es # new"]) auto
      qed
      have d: "always_ok post \<longrightarrow> (\<exists>res. fst (process_linear_loop post (enumerate n (item # items)) embs sent) = Inr res)"
        using r3 unfolding eq .
      from a b c d show ?thesis by blast
    qed
  qed
qed

text \<open>
  Claim C10. For every dataset of length \<open>L\<close>, \<open>process_dataset_linear\<close> posts one
  single-text request per item, in order, and none for an item at index 100 or beyond;
  when it returns, it has posted the requests of the first 100 items (all of them when
  \<open>L < 100\<close>) and its value is a list of exactly \<open>min L 100\<close> results, the \<open>i\<close>-th being
  the embeddings the endpoint returned for item \<open>i\<close>; and it does return when no request
  fails.
\<close>

theorem process_dataset_linear_first_100:
  "(\<exists>k \<le> min (length dataset) 100.
      snd (process_dataset_linear post dataset []) = map (\<lambda>item. [item_text item]) (take k dataset)) \<and>
   (\<forall>embeddings. fst (process_dataset_linear post dataset []) = Inr embeddings \<longrightarrow>
      length embeddings = min (length dataset) 100 \<and>
      snd (process_dataset_linear post dataset []) = map (\<lambda>item. [item_text item]) (take 100 dataset) \<and>
      (\<forall>i<length embeddings. \<exists>r.
         post (map (\<lambda>item. [item_text item]) (take i dataset)) [item_text (dataset ! i)] = Inr r \<and>
         raise_for_status r = Inr () \<and> embeddings ! i = map item_embedding (json_data r))) \<and>
   (always_ok post \<longrightarrow> (\<exists>embeddings. fst (process_dataset_linear post dataset []) = Inr embeddings))"
proof -
  from process_linear_loop_requests[of dataset 0 post "[]" "[]"]
  obtain k where k: "k \<le> min (length dataset) 100"
    and r1: "snd (process_dataset_linear post dataset []) = map (\<lambda>item. [item_text item]) (take k dataset)"
    and r2: "\<forall>res. fst (process_dataset_linear post dataset []) = Inr res \<longrightarrow>
        k = min (length dataset) 100 \<and>
        (\<exists>new. res = new \<and> length new = k \<and>
           (\<forall>i<k. \<exists>r. post (map (\<lambda>item. [item_text item]) (take i dataset)) [item_text (dataset ! i)] = Inr r \<and>
                     raise_for_status r = Inr () \<and> new ! i = map item_embedding (json_data r)))"
    and r3: "always_ok post \<longrightarrow> (\<exists>res. fst (process_dataset_linear post dataset []) = Inr res)"
    unfolding process_dataset_linear_def by auto
  have t: "take k dataset = take 100 dataset" if "k = min (length dataset) 100"
    using that by (simp add: min_def)
  from k r1 have a: "\<exists>k \<le> min (length dataset) 100.
      snd (process_dataset_linear post dataset []) = map (\<lambda>item. [item_text item]) (take k dataset)" by blast
  have b: "\<forall>embeddings. fst (process_dataset_linear post dataset []) = Inr embeddings \<longrightarrow>
      length embeddings = min (length dataset) 100 \<and>
      snd (process_dataset_linear post dataset []) = map (\<lambda>item. [item_text item]) (take 100 dataset) \<and>
      (\<forall>i<length embeddings. \<exists>r.
         post (map (\<lambda>item. [item_text item]) (take i dataset)) [item_text (dataset ! i)] = Inr r \<and>
         raise_for_status r = Inr () \<and> embeddings ! i = map item_embedding (json_data r))"
    using r2 r1 t by auto
  from a b r3 show ?thesis by blast
qed

theorem process_dataset_linear_first_100_witness:
  "always_ok sample_endpoint \<and>
   (\<exists>embeddings.
      fst (process_dataset_linear sample_endpoint (replicate 101 \<lparr>item_text = ''x''\<rparr>) []) = Inr embeddings \<and>
      length embeddings = 100) \<and>
   snd (process_dataset_linear sample_endpoint (replicate 101 \<lparr>item_text = ''x''\<rparr>) []) = replicate 100 [''x'']"
proof -
  have h: "always_ok sample_endpoint"
    by (simp add: always_ok_def sample_endpoint_def raise_for_status_def)
  from process_dataset_linear_first_100[of "replicate 101 \<lparr>item_text = ''x''\<rparr>" sample_endpoint] h
  show ?thesis by auto
qed

section \<open>The benchmark results\<close>


































section \<open>What the batched run persists, and how the helpers fail\<close>

lemma main_batch_files:
  "snd (snd (main ''BATCH'' pd_dataframe post dataset)) = Map.empty \<or>
   (\<exists>df. pd_dataframe PyNone = Inr df \<and>
      snd (snd (main ''BATCH'' pd_dataframe post dataset)) = [EXCEL_FILE \<mapsto> df])"
  by (auto simp: main_def process_dataset_batch_def save_to_excel_def split: prod.splits sum.splits)

lemma batch20: "process_dataset_batch sample_endpoint twenty_items BATCH_SIZE [] = (Inr PyNone, [replicate 20 ''x''])"
  by (simp add: twenty_items_def process_dataset_batch_def BATCH_SIZE_def numeral_eq_Suc Let_def
      get_embeddings_batch_def sample_endpoint_def raise_for_status_def)

text \<open>
  Claim C5 says that a run of \<open>main\<close> with \<open>FEATURE_FLAG = "BATCH"\<close> persists the embedding
  vectors returned by the endpoint to \<open>embeddings.xlsx\<close>. On twenty items, with an endpoint
  that returns twenty vectors, the run passes \<open>None\<close> to \<open>save_to_excel\<close>: if
  \<open>pd.dataframe\<close> built a table of its argument, the file would hold \<open>None\<close>; as the
  attribute lookup raises, no file is written. Neither holds the twenty vectors.
\<close>

theorem main_batch_persists_none:
  "main ''BATCH'' (\<lambda>data. Inr data) sample_endpoint twenty_items =
     (Inr (), [replicate 20 ''x''], [EXCEL_FILE \<mapsto> PyNone]) \<and>
   main ''BATCH'' (\<lambda>data. Inl AttributeError) sample_endpoint twenty_items =
     (Inl AttributeError, [replicate 20 ''x''], (Map.empty :: string \<rightharpoonup> pyvalue)) \<and>
   fst (get_embeddings_batch sample_endpoint (replicate 20 ''x'') []) = Inr (replicate 20 [1, 0]) \<and>
   PyNone \<noteq> py_embeddings (replicate 20 [1, 0])"
  by (simp add: main_def batch20 save_to_excel_def py_embeddings_def
      get_embeddings_batch_def sample_endpoint_def raise_for_status_def)

text \<open>
  What does hold of the request helpers: an HTTP error status raises HTTPError after one
  request; a wrong embedding dimension raises AssertionError in both asynchronous
  helpers; a wrong count raises AssertionError in the Cohere helper, and in the OpenAI
  helper when the response object has a length.
\<close>

lemma get_embeddings_batch_http_error:
  assumes "post sent texts = Inr r" and "400 \<le> status_code r" and "status_code r < 600"
  shows "get_embeddings_batch post texts sent = (Inl (HTTPError (status_code r)), sent @ [texts])"
  using assms by (simp add: get_embeddings_batch_def raise_for_status_def)

lemma get_embeddings_linear_http_error:
  assumes "post sent texts = Inr r" and "400 \<le> status_code r" and "status_code r < 600"
  shows "get_embeddings_linear post texts sent = (Inl (HTTPError (status_code r)), sent @ [texts])"
  using assms by (simp add: get_embeddings_linear_def raise_for_status_def)

lemma openai_embed_text_wrong_count:
  assumes "create texts = Inr r" and "length (response_data r) \<noteq> length texts"
  shows "openai_embed_text create texts =
           (case response_len r of None \<Rightarrow> Inl TypeError | Some n \<Rightarrow> Inl AssertionError)"
  using assms
  by (simp add: openai_embed_text_def py_assert_def py_len_response_def split: option.splits)

lemma openai_collect_wrong_dimension:
  "\<not> list_all (\<lambda>item. length (item_embedding item) = 1536) items \<Longrightarrow>
   openai_collect items res = Inl AssertionError"
  by (induction items arbitrary: res) (auto simp: py_assert_def)

lemma openai_embed_text_wrong_dimension:
  assumes "create texts = Inr r" and "length (response_data r) = length texts"
    and "\<not> list_all (\<lambda>item. length (item_embedding item) = 1536) (response_data r)"
  shows "openai_embed_text create texts = Inl AssertionError"
  using assms by (simp add: openai_embed_text_def py_assert_def openai_collect_wrong_dimension)

lemma cohere_check_wrong_dimension:
  "\<not> list_all (\<lambda>item. length item = 1024) items \<Longrightarrow> cohere_check items = Inl AssertionError"
  by (induction items) (auto simp: py_assert_def)

lemma cohere_embed_text_wrong_shape:
  assumes "co_embed texts = Inr r"
    and "length (response_embeddings r) \<noteq> length texts \<or>
         \<not> list_all (\<lambda>item. length item = 1024) (response_embeddings r)"
  shows "cohere_embed_text co_embed texts = Inl AssertionError"
  using assms by (auto simp: cohere_embed_text_def py_assert_def cohere_check_wrong_dimension)

text \<open>
  A request that fails is not repeated: when \<open>process_dataset_batch\<close> raises, the request
  that raised is the last one posted; when a helper of an API benchmark raises for one
  batch, the benchmark raises.
\<close>

lemma process_batch_loop_abort:
  "fst (process_batch_loop post b rest acc sent) = Inl e \<Longrightarrow>
   \<exists>reqs texts. snd (process_batch_loop post b rest acc sent) = (sent @ reqs) @ [texts] \<and>
     fst (get_embeddings_batch post texts (sent @ reqs)) = Inl e"
proof (induction rest arbitrary: acc sent)
  case Nil
  then show ?case by simp
next
  case (Cons item rest)
  obtain embs bt where acc: "acc = (embs, bt)" by (cases acc)
  let ?bt1 = "bt @ [item_text item]"
  show ?case
  proof (cases "int (length ?bt1) = b")
    case full: True
    obtain r sent1 where g: "get_embeddings_batch post ?bt1 sent = (r, sent1)" by force
    then have s1: "sent1 = sent @ [?bt1]" using get_embeddings_batch_sent[of post ?bt1 sent] by simp
    show ?thesis
    proof (cases r)
      case (Inl e')
      with Cons.prems full g acc have "e' = e" by (simp add: Let_def)
      with full g Inl s1 acc show ?thesis
        by (intro exI[of _ "[]"] exI[of _ ?bt1]) (simp add: Let_def)
    next
      case (Inr es)
      have eq: "process_batch_loop post b (item # rest) acc sent =
                process_batch_loop post b rest (embs @ es, []) sent1"
        using full g Inr acc by (simp add: Let_def)
      from Cons.prems[unfolded eq] Cons.IH[of "(embs @ es, [])" sent1]
      obtain reqs texts where
        "snd (process_batch_loop post b rest (embs @ es, []) sent1) = (sent1 @ reqs) @ [texts]"
        "fst (get_embeddings_batch post texts (sent1 @ reqs)) = Inl e"
        by blast
      then show ?thesis unfolding eq s1
        by (intro exI[of _ "?bt1 # reqs"] exI[of _ texts]) simp
    qed
  next
    case False
    then have eq: "process_batch_loop post b (item # rest) acc sent =
              process_batch_loop post b rest (embs, ?bt1) sent"
      using acc by (simp add: Let_def)
    from Cons.prems[unfolded eq] Cons.IH[of "(embs, ?bt1)" sent]
    show ?thesis unfolding eq by simp
  qed
qed

lemma process_dataset_batch_abort:
  assumes "fst (process_dataset_batch post dataset b []) = Inl e"
  shows "\<exists>reqs texts. snd (process_dataset_batch post dataset b []) = reqs @ [texts] \<and>
           fst (get_embeddings_batch post texts reqs) = Inl e"
proof -
  from assms have "fst (process_batch_loop post b dataset ([], []) []) = Inl e"
    by (simp add: fst_process_dataset_batch split: sum.splits)
  from process_batch_loop_abort[OF this] show ?thesis
    by (simp add: snd_process_dataset_batch)
qed

lemma gather_abort:
  "Inl e \<in> set rs \<Longrightarrow> \<exists>e'. gather rs = Inl e'"
proof (induction rs)
  case Nil
  then show ?case by simp
next
  case (Cons r rs)
  show ?case
  proof (cases r)
    case (Inl a)
    then show ?thesis by simp
  next
    case (Inr x)
    with Cons obtain e' where "gather rs = Inl e'" by auto
    with Inr show ?thesis by simp
  qed
qed

lemma benchmark_openai_abort:
  assumes "get_unique_sentences test_dataset Map.empty 128 = (sentences, m)"
    and "texts \<in> set sentences" and "openai_embed_text create texts = Inl e"
  shows "\<exists>e'. benchmark_openai evals cs create test_dataset = Inl e'"
proof -
  from assms(2,3) have "Inl e \<in> set (map (openai_embed_text create) sentences)" by force
  from gather_abort[OF this] assms(1) show ?thesis by (auto simp: benchmark_openai_def)
qed

lemma benchmark_cohere_roc_abort:
  assumes "get_unique_sentences test_dataset Map.empty 96 = (sentences, m)"
    and "texts \<in> set sentences" and "cohere_embed_text co_embed texts = Inl e"
  shows "\<exists>e'. benchmark_cohere_roc evals cs co_embed test_dataset = Inl e'"
proof -
  from assms(2,3) have "Inl e \<in> set (map (cohere_embed_text co_embed) sentences)" by force
  from gather_abort[OF this] assms(1) show ?thesis by (auto simp: benchmark_cohere_roc_def)
qed

text \<open>
  Claim C4 says that the asynchronous helpers raise AssertionError whenever the response
  carries another number of embeddings than texts were sent. For a response object
  without a length, one embedding returned for two texts makes the OpenAI helper raise
  TypeError, from \<open>len(response)\<close> in the assertion message; the Cohere helper, whose
  assertion has no message, raises AssertionError.
\<close>

theorem openai_embed_text_count_mismatch:
  "openai_embed_text
     (\<lambda>texts. Inr \<lparr>response_data = [\<lparr>item_embedding = replicate 1536 0\<rparr>], response_len = None\<rparr>)
     [''a'', ''b''] = Inl TypeError \<and>
   cohere_embed_text (\<lambda>texts. Inr \<lparr>response_embeddings = [replicate 1024 0]\<rparr>) [''a'', ''b''] =
     Inl AssertionError"
  by (simp add: openai_embed_text_def cohere_embed_text_def py_assert_def py_len_response_def)

end
